theory Spec2Isabelle
  imports Main
begin

section \<open>Python values, exceptions and awaitables\<close>

text \<open>
  The repository is a set of asyncio scripts around one external call,
  \<^verbatim>\<open>await Runner.run(agent, input)\<close>, which either returns a result object (of which
  the scripts only read \<^verbatim>\<open>final_output\<close>), raises, or does not come back.  Everything the
  scripts do with that call is ordinary control flow plus four library functions:
  \<^verbatim>\<open>asyncio.gather\<close>, \<^verbatim>\<open>asyncio.wait_for\<close>, \<^verbatim>\<open>asyncio.wait\<close> and \<^verbatim>\<open>asyncio.sleep\<close>.

  Exceptions carry their class and their message.  Only the class tests the sources make
  are modelled: \<^verbatim>\<open>except Exception\<close> (which since Python 3.8 does not catch
  \<^verbatim>\<open>CancelledError\<close>, a \<^verbatim>\<open>BaseException\<close>) and \<^verbatim>\<open>except asyncio.TimeoutError\<close>.
\<close>

datatype exn_class = Exception | ValueError | TimeoutError | CancelledError

datatype exn = Exn exn_class string

fun str :: "exn \<Rightarrow> string" where
  "str (Exn c m) = m"

fun isinstance_Exception :: "exn \<Rightarrow> bool" where
  "isinstance_Exception (Exn c m) = (c \<noteq> CancelledError)"

fun isinstance_TimeoutError :: "exn \<Rightarrow> bool" where
  "isinstance_TimeoutError (Exn c m) = (c = TimeoutError)"

text \<open>
  What awaiting something does, seen from the coroutine that awaits it: after some number
  of clock ticks it returns a value or raises, or it never resumes.  Ticks are counted
  from the moment the awaitable is started.
\<close>

datatype 'a awaitable = Returns nat 'a | Raises nat exn | Hangs

text \<open>
  One call site of \<^verbatim>\<open>Runner.run\<close>: the input string determines what awaiting it does, and
  the value returned stands for \<^verbatim>\<open>result.final_output\<close>.  A function that calls
  \<^verbatim>\<open>Runner.run\<close> several times takes one such call per invocation, numbered from 0 in
  the order the source creates them, so that two invocations on the same input may differ
  in latency and in outcome.
\<close>

type_synonym runner = "string \<Rightarrow> string awaitable"

datatype pyval = PyNone | PyStr string | PyInt int

type_synonym dict = "string \<rightharpoonup> pyval"

subsection \<open>\<^verbatim>\<open>asyncio.gather(*aws)\<close> with the default \<^verbatim>\<open>return_exceptions=False\<close>\<close>

text \<open>
  All awaitables are started together.  If none raises, the call returns once the last
  one has returned, with the values in the order of the arguments.  The first exception
  raised by any of them is propagated at once to the caller of \<^verbatim>\<open>gather\<close>; the other
  awaitables are neither cancelled nor awaited.  Where two awaitables raise at the same
  tick the model takes the one that comes first in the argument list; no theorem below
  depends on that choice.
\<close>

fun join :: "'a awaitable \<Rightarrow> 'a list awaitable \<Rightarrow> 'a list awaitable" where
  "join (Returns t v) (Returns t' vs) = Returns (max t t') (v # vs)"
| "join (Raises t e) (Raises t' e') = (if t' < t then Raises t' e' else Raises t e)"
| "join (Raises t e) _ = Raises t e"
| "join _ (Raises t' e') = Raises t' e'"
| "join _ _ = Hangs"

fun gather :: "'a awaitable list \<Rightarrow> 'a list awaitable" where
  "gather [] = Returns 0 []"
| "gather (a # as) = join a (gather as)"

section \<open>The leaf searches\<close>

text \<open>
  \<^verbatim>\<open>deep_research.py\<close>, \<^verbatim>\<open>search(item)\<close>: builds the input message, awaits the runner once
  and returns the final output.  There is no \<^verbatim>\<open>try\<close> in the function.
\<close>

record WebSearchItem =
  reason :: string
  query :: string

record WebSearchPlan =
  searches :: "WebSearchItem list"

definition input_msg :: "WebSearchItem \<Rightarrow> string" where
  "input_msg item = ''Search term: '' @ query item @ [CHR 0x0A] @ ''Reason for searching: '' @ reason item"

definition search :: "runner \<Rightarrow> WebSearchItem \<Rightarrow> string awaitable" where
  "search Runner_run item =
     (case Runner_run (input_msg item) of
        Returns t final_output \<Rightarrow> Returns t final_output
      | Raises t e \<Rightarrow> Raises t e
      | Hangs \<Rightarrow> Hangs)"

text \<open>
  \<^verbatim>\<open>parallel_research.py\<close>, \<^verbatim>\<open>search_task(query, agent_id)\<close>: awaits the runner once and
  wraps the output in a dictionary together with the elapsed time (here in ticks).
\<close>

definition search_task :: "runner \<Rightarrow> string \<Rightarrow> nat \<Rightarrow> dict awaitable" where
  "search_task Runner_run q agent_id =
     (case Runner_run q of
        Returns elapsed final_output \<Rightarrow>
          Returns elapsed
            [''agent_id'' \<mapsto> PyInt (int agent_id), ''query'' \<mapsto> PyStr q,
             ''result'' \<mapsto> PyStr final_output, ''time'' \<mapsto> PyInt (int elapsed)]
      | Raises t e \<Rightarrow> Raises t e
      | Hangs \<Rightarrow> Hangs)"

section \<open>Fan-out\<close>

text \<open>
  The list comprehensions that create one awaitable per element, in list order;
  \<open>runs j\<close> is the \<open>j\<close>-th invocation of \<^verbatim>\<open>Runner.run\<close>.
\<close>

fun spawn :: "(nat \<Rightarrow> 'q \<Rightarrow> 'a awaitable) \<Rightarrow> nat \<Rightarrow> 'q list \<Rightarrow> 'a awaitable list" where
  "spawn f j [] = []"
| "spawn f j (x # xs) = f j x # spawn f (Suc j) xs"

text \<open>
  \<^verbatim>\<open>perform_searches(search_plan)\<close>: one task per item of the plan, then a plain
  \<^verbatim>\<open>gather\<close>, whose list is returned.
\<close>

definition perform_searches :: "(nat \<Rightarrow> runner) \<Rightarrow> WebSearchPlan \<Rightarrow> string list awaitable" where
  "perform_searches runs search_plan =
     gather (spawn (\<lambda>j. search (runs j)) 0 (searches search_plan))"

text \<open>
  \<^verbatim>\<open>basic_parallel_searches()\<close>: the same with \<^verbatim>\<open>Runner.run\<close> called directly.  The source
  binds \<^verbatim>\<open>queries\<close> to three literals (\<open>demo_queries\<close>); the list is a parameter here.
  The function returns nothing; what it hands on is what it prints after the \<^verbatim>\<open>gather\<close>:
  for each pair of \<^verbatim>\<open>zip(queries, results)\<close>, numbered from 1, the query and the first 100
  characters of the result.
\<close>

definition demo_queries :: "string list" where
  "demo_queries = [''OpenAI Agents SDK features'', ''LangGraph capabilities'',
                   ''Crew AI framework overview'']"

definition basic_parallel_searches ::
  "(nat \<Rightarrow> runner) \<Rightarrow> string list \<Rightarrow> (nat \<times> string \<times> string) list awaitable" where
  "basic_parallel_searches runs queries =
     (case gather (spawn runs 0 queries) of
        Returns elapsed results \<Rightarrow>
          Returns elapsed
            (map (\<lambda>(i, (q, r)). (i, q, take 100 r)) (enumerate 1 (zip queries results)))
      | Raises t e \<Rightarrow> Raises t e
      | Hangs \<Rightarrow> Hangs)"

section \<open>Bounded execution\<close>




section \<open>Racing\<close>

text \<open>
  \<^verbatim>\<open>asyncio.wait(aws, return_when=FIRST_COMPLETED)\<close>, as on the interpreters that still
  wrap bare coroutines into tasks (up to Python 3.10): it returns when the first
  awaitable has completed, by returning or by raising, with the set of those that are
  complete at that moment and the set of those that are not.  It never raises an
  awaitable's exception itself.  Awaitables are named by their position in the argument
  list.  An empty argument list is a \<^verbatim>\<open>ValueError\<close>.
\<close>

fun completion_time :: "'a awaitable \<Rightarrow> nat option" where
  "completion_time (Returns t v) = Some t"
| "completion_time (Raises t e) = Some t"
| "completion_time Hangs = None"






section \<open>Retry with backoff\<close>

text \<open>
  \<^verbatim>\<open>search_with_retry(query, max_retries)\<close>.  The loop runs over \<^verbatim>\<open>range(max_retries)\<close>,
  which is empty when \<^verbatim>\<open>max_retries\<close> is zero or negative; a function whose loop ends
  without a \<^verbatim>\<open>return\<close> returns \<^verbatim>\<open>None\<close>.  The log lists the invocations of the runner and
  the calls of \<^verbatim>\<open>asyncio.sleep\<close> in the order they happen; \<open>now\<close> is the time spent so far.
\<close>

datatype event = Invoke nat string | Sleep nat

definition py_range1 :: "int \<Rightarrow> nat list" where
  "py_range1 n = [0..<nat n]"

fun retry_loop ::
  "(nat \<Rightarrow> runner) \<Rightarrow> string \<Rightarrow> int \<Rightarrow> nat list \<Rightarrow> nat \<Rightarrow> event list \<times> dict option awaitable" where
  "retry_loop runs q max_retries [] now = ([], Returns now None)"
| "retry_loop runs q max_retries (attempt # rest) now =
     (case runs attempt q of
        Returns t final_output \<Rightarrow>
          ([Invoke attempt q],
           Returns (now + t)
             (Some [''query'' \<mapsto> PyStr q, ''result'' \<mapsto> PyStr final_output,
                    ''attempts'' \<mapsto> PyInt (int attempt + 1)]))
      | Raises t e \<Rightarrow>
          if isinstance_Exception e then
            if int attempt = max_retries - 1
            then ([Invoke attempt q],
                  Returns (now + t)
                    (Some [''query'' \<mapsto> PyStr q, ''result'' \<mapsto> PyNone,
                           ''error'' \<mapsto> PyStr (str e),
                           ''attempts'' \<mapsto> PyInt (int attempt + 1)]))
            else (case retry_loop runs q max_retries rest (now + t + 2 ^ attempt) of
                    (log, outcome) \<Rightarrow> (Invoke attempt q # Sleep (2 ^ attempt) # log, outcome))
          else ([Invoke attempt q], Raises (now + t) e)
      | Hangs \<Rightarrow> ([Invoke attempt q], Hangs))"

definition search_with_retry ::
  "(nat \<Rightarrow> runner) \<Rightarrow> string \<Rightarrow> int \<Rightarrow> event list \<times> dict option awaitable" where
  "search_with_retry runs q max_retries = retry_loop runs q max_retries (py_range1 max_retries) 0"

section \<open>Batches\<close>

text \<open>
  \<^verbatim>\<open>range(start, stop, step)\<close> raises \<^verbatim>\<open>ValueError\<close> for a zero step, and a slice clamps
  its bounds to the list.
\<close>

definition py_range :: "int \<Rightarrow> int \<Rightarrow> int \<Rightarrow> exn + int list" where
  "py_range start stop step =
     (if step = 0 then Inl (Exn ValueError ''range() arg 3 must not be zero'')
      else if 0 < step
      then Inr (map (\<lambda>k. start + int k * step) [0..<nat ((stop - start + step - 1) div step)])
      else Inr (map (\<lambda>k. start + int k * step) [0..<nat ((start - stop - step - 1) div (- step))]))"

definition slice_index :: "nat \<Rightarrow> int \<Rightarrow> nat" where
  "slice_index n k = (if k < 0 then nat (max 0 (int n + k)) else min n (nat k))"

definition py_slice :: "'a list \<Rightarrow> int \<Rightarrow> int \<Rightarrow> 'a list" where
  "py_slice xs i j =
     (let lo = slice_index (length xs) i; hi = slice_index (length xs) j
      in take (hi - lo) (drop lo xs))"

text \<open>
  \<^verbatim>\<open>batch_parallel_searches(queries, batch_size)\<close>: for each start index of the range, a
  plain \<^verbatim>\<open>gather\<close> over the slice, whose list is appended to \<^verbatim>\<open>results\<close>.  An exception
  out of a \<^verbatim>\<open>gather\<close> leaves the loop and the function.  The invocation of the runner for
  the query at position \<open>p\<close> is number \<open>p\<close>.
\<close>

fun batch_loop ::
  "(nat \<Rightarrow> runner) \<Rightarrow> string list \<Rightarrow> int \<Rightarrow> int list \<Rightarrow> nat \<Rightarrow> string list \<Rightarrow> string list awaitable" where
  "batch_loop runs queries batch_size [] now results = Returns now results"
| "batch_loop runs queries batch_size (i # rest) now results =
     (let batch = py_slice queries i (i + batch_size) in
      case gather (spawn runs (nat i) batch) of
        Returns t batch_results \<Rightarrow>
          batch_loop runs queries batch_size rest (now + t) (results @ batch_results)
      | Raises t e \<Rightarrow> Raises (now + t) e
      | Hangs \<Rightarrow> Hangs)"

definition batch_parallel_searches ::
  "(nat \<Rightarrow> runner) \<Rightarrow> string list \<Rightarrow> int \<Rightarrow> string list awaitable" where
  "batch_parallel_searches runs queries batch_size =
     (case py_range 0 (int (length queries)) batch_size of
        Inl e \<Rightarrow> Raises 0 e
      | Inr starts \<Rightarrow> batch_loop runs queries batch_size starts 0 [])"

section \<open>Example runners\<close>

text \<open>
  Concrete runners for the examples.  \<open>always_fails\<close> raises after one tick on every
  input, and so does every invocation of \<open>never_succeeds\<close>.  With \<open>fails_second\<close> the
  invocation numbered 1 raises after one tick and every other invocation returns after
  five.  With \<open>fails_twice\<close> the first two invocations raise and the later ones return.
  With \<open>times_out_once\<close> the first invocation raises \<^verbatim>\<open>TimeoutError\<close> after thirty
  ticks, with \<open>cancelled_first\<close> it raises \<^verbatim>\<open>CancelledError\<close>; the later ones return.
  \<open>raises_TimeoutError\<close> raises \<^verbatim>\<open>TimeoutError\<close> itself after one tick, \<open>slow\<close> returns
  after 31 ticks and \<open>quick\<close> after 29.  In the races, the first task of \<open>first_wins\<close>
  returns after one tick, the second raises after two and the third hangs; the first
  task of \<open>first_fails\<close> raises after one tick and the others return later.
\<close>

definition always_fails :: runner where
  "always_fails q = Raises 1 (Exn Exception ''boom'')"

definition fails_second :: "nat \<Rightarrow> runner" where
  "fails_second i q = (if i = 1 then Raises 1 (Exn Exception ''boom'') else Returns 5 (q @ ''!''))"

definition fails_twice :: "nat \<Rightarrow> runner" where
  "fails_twice i q = (if i < 2 then Raises 1 (Exn Exception ''boom'') else Returns 1 ''ok'')"

definition times_out_once :: "nat \<Rightarrow> runner" where
  "times_out_once i q = (if i = 0 then Raises 30 (Exn TimeoutError []) else Returns 1 ''ok'')"

definition never_succeeds :: "nat \<Rightarrow> runner" where
  "never_succeeds i q = Raises 1 (Exn Exception ''boom'')"

definition cancelled_first :: "nat \<Rightarrow> runner" where
  "cancelled_first i q = (if i = 0 then Raises 1 (Exn CancelledError []) else Returns 1 ''ok'')"






section \<open>Order of the results of a fan-out\<close>

lemma join_Returns:
  "join a g = Returns t vs \<Longrightarrow>
     \<exists>ta v tg vs'. a = Returns ta v \<and> g = Returns tg vs' \<and> vs = v # vs' \<and> t = max ta tg"
  by (cases a; cases g) (auto split: if_splits)

lemma gather_Returns:
  "gather aws = Returns t vs \<Longrightarrow> list_all2 (\<lambda>a v. \<exists>ta. a = Returns ta v) aws vs"
proof (induction aws arbitrary: t vs)
  case Nil
  then show ?case by simp
next
  case (Cons a aws)
  from Cons.prems obtain ta v tg vs' where
    "a = Returns ta v" "gather aws = Returns tg vs'" "vs = v # vs'"
    using join_Returns [of a "gather aws" t vs] by auto
  with Cons.IH show ?case by auto
qed

lemma gather_all_return:
  "list_all2 (\<lambda>a v. \<exists>ta. a = Returns ta v) aws vs \<Longrightarrow> \<exists>t. gather aws = Returns t vs"
  by (induction rule: list_all2_induct) auto

lemma gather_all_return':
  "\<forall>a \<in> set aws. \<exists>ta v. a = Returns ta v \<Longrightarrow> \<exists>t vs. gather aws = Returns t vs"
  by (induction aws) auto

lemma length_spawn [simp]: "length (spawn f j xs) = length xs"
  by (induction xs arbitrary: j) auto

lemma nth_spawn: "i < length xs \<Longrightarrow> spawn f j xs ! i = f (j + i) (xs ! i)"
  by (induction xs arbitrary: j i) (auto simp: nth_Cons split: nat.splits)

lemma spawn_take: "spawn f j (take n xs) = take n (spawn f j xs)"
  by (induction xs arbitrary: j n) (auto simp: take_Cons split: nat.splits)

lemma spawn_drop: "spawn f (j + n) (drop n xs) = drop n (spawn f j xs)"
proof (induction xs arbitrary: j n)
  case Nil
  then show ?case by simp
next
  case (Cons x xs)
  show ?case
  proof (cases n)
    case 0
    then show ?thesis by simp
  next
    case (Suc m)
    with Cons.IH [of "Suc j" m] show ?thesis by simp
  qed
qed

lemma chunks_cover: "0 < b \<Longrightarrow> n \<le> ((n + b - 1) div b) * (b::nat)"
proof -
  assume b: "0 < b"
  have "n + b - 1 = ((n + b - 1) div b) * b + (n + b - 1) mod b" by simp
  moreover have "(n + b - 1) mod b < b" using b by simp
  ultimately show ?thesis by linarith
qed

lemma py_range_pos:
  assumes "0 < b"
  shows "py_range 0 (int n) (int b) = Inr (map (\<lambda>k. int (k * b)) [0..<(n + b - 1) div b])"
proof -
  have "int n + int b - 1 = int (n + b - 1)" using assms by linarith
  then have "nat ((int n - 0 + int b - 1) div int b) = (n + b - 1) div b"
    by (simp add: zdiv_int [symmetric] del: of_nat_add of_nat_diff)
  then show ?thesis using assms by (simp add: py_range_def)
qed

lemma slice_index_nat [simp]: "slice_index n (int m) = min n m"
  by (simp add: slice_index_def)

lemma py_slice_chunk:
  "py_slice xs (int (k * b)) (int (k * b) + int b) = take b (drop (k * b) xs)"
proof -
  have "int (k * b) + int b = int (k * b + b)" by simp
  then have "py_slice xs (int (k * b)) (int (k * b) + int b)
      = take (min (length xs) (k * b + b) - min (length xs) (k * b)) (drop (min (length xs) (k * b)) xs)"
    unfolding py_slice_def Let_def by (simp only: slice_index_nat)
  also have "\<dots> = take b (drop (k * b) xs)"
    by (cases "length xs \<le> k * b") (auto simp: min_def)
  finally show ?thesis .
qed


lemma batch_loop_step:
  "batch_loop runs qs (int b) (int (k * b) # rest) now results =
     (case gather (take b (drop (k * b) (spawn runs 0 qs))) of
        Returns t vs \<Rightarrow> batch_loop runs qs (int b) rest (now + t) (results @ vs)
      | Raises t e \<Rightarrow> Raises (now + t) e
      | Hangs \<Rightarrow> Hangs)"
proof -
  have "spawn runs (nat (int (k * b))) (py_slice qs (int (k * b)) (int (k * b) + int b))
      = take b (drop (k * b) (spawn runs 0 qs))"
    using spawn_drop [of runs 0 "k * b" qs]
    by (simp only: py_slice_chunk nat_int spawn_take add_0)
  then show ?thesis
    unfolding batch_loop.simps Let_def by (simp only:)
qed

lemma batch_loop_sound:
  assumes b: "0 < b" and cover: "length qs \<le> m * b"
  shows "batch_loop runs qs (int b) (map (\<lambda>k. int (k * b)) [k0..<m]) now results = Returns t rs \<Longrightarrow>
         \<exists>vs. rs = results @ vs \<and>
              list_all2 (\<lambda>a v. \<exists>ta. a = Returns ta v) (drop (k0 * b) (spawn runs 0 qs)) vs"
proof (induction "m - k0" arbitrary: k0 now results)
  case 0
  then have "m \<le> k0" by simp
  then have "m * b \<le> k0 * b" by (rule mult_le_mono1)
  with cover have "length (spawn runs 0 qs) \<le> k0 * b"
    using length_spawn [of runs 0 qs] by linarith
  then have "drop (k0 * b) (spawn runs 0 qs) = []" by (rule drop_all)
  moreover from 0 have "rs = results" by simp
  ultimately show ?case by simp
next
  case (Suc d)
  then have lt: "k0 < m" by simp
  let ?T = "spawn runs 0 qs"
  let ?chunk = "take b (drop (k0 * b) ?T)"
  have unfold: "map (\<lambda>k. int (k * b)) [k0..<m] = int (k0 * b) # map (\<lambda>k. int (k * b)) [Suc k0..<m]"
    using lt by (simp add: upt_conv_Cons del: of_nat_mult)
  from Suc.prems obtain t1 vs1 where g: "gather ?chunk = Returns t1 vs1"
    and rest: "batch_loop runs qs (int b) (map (\<lambda>k. int (k * b)) [Suc k0..<m]) (now + t1) (results @ vs1) = Returns t rs"
    unfolding unfold batch_loop_step by (auto split: awaitable.splits)
  from Suc.hyps(2) have "d = m - Suc k0" by simp
  from Suc.hyps(1) [OF this rest] obtain vs2 where
    rs: "rs = (results @ vs1) @ vs2"
    and all2: "list_all2 (\<lambda>a v. \<exists>ta. a = Returns ta v) (drop (Suc k0 * b) ?T) vs2"
    by blast
  have "drop (k0 * b) ?T = ?chunk @ drop b (drop (k0 * b) ?T)"
    by (rule append_take_drop_id [symmetric])
  also have "drop b (drop (k0 * b) ?T) = drop (Suc k0 * b) ?T" by (simp add: add.commute)
  finally have split: "drop (k0 * b) ?T = ?chunk @ drop (Suc k0 * b) ?T" .
  have "list_all2 (\<lambda>a v. \<exists>ta. a = Returns ta v) (?chunk @ drop (Suc k0 * b) ?T) (vs1 @ vs2)"
    using gather_Returns [OF g] all2 by (rule list_all2_appendI)
  with split rs show ?case by auto
qed

lemma batch_loop_complete:
  assumes b: "0 < b" and ok: "\<forall>a \<in> set (spawn runs 0 qs). \<exists>ta v. a = Returns ta v"
  shows "\<exists>t rs. batch_loop runs qs (int b) (map (\<lambda>k. int (k * b)) [k0..<m]) now results = Returns t rs"
proof (induction "m - k0" arbitrary: k0 now results)
  case 0
  then show ?case by simp
next
  case (Suc d)
  then have lt: "k0 < m" by simp
  let ?chunk = "take b (drop (k0 * b) (spawn runs 0 qs))"
  have unfold: "map (\<lambda>k. int (k * b)) [k0..<m] = int (k0 * b) # map (\<lambda>k. int (k * b)) [Suc k0..<m]"
    using lt by (simp add: upt_conv_Cons del: of_nat_mult)
  have "\<forall>a \<in> set ?chunk. \<exists>ta v. a = Returns ta v"
    using ok by (meson in_set_dropD in_set_takeD)
  then obtain t1 vs1 where g: "gather ?chunk = Returns t1 vs1"
    using gather_all_return' by blast
  from Suc.hyps(2) have "d = m - Suc k0" by simp
  from Suc.hyps(1) [OF this] show ?case
    unfolding unfold batch_loop_step g by simp
qed

lemma batch_sound:
  assumes "1 \<le> batch_size"
    and "batch_parallel_searches runs queries batch_size = Returns t rs"
  shows "list_all2 (\<lambda>a v. \<exists>ta. a = Returns ta v) (spawn runs 0 queries) rs"
proof -
  obtain b where b: "batch_size = int b" "0 < b"
    using assms(1) by (cases batch_size) auto
  let ?m = "(length queries + b - 1) div b"
  from assms(2) have "batch_loop runs queries (int b) (map (\<lambda>k. int (k * b)) [0..<?m]) 0 [] = Returns t rs"
    unfolding batch_parallel_searches_def b py_range_pos [OF b(2)] by simp
  from batch_loop_sound [OF b(2) chunks_cover [OF b(2)] this] show ?thesis by simp
qed


lemma batch_complete:
  assumes "1 \<le> batch_size"
    and "\<forall>i<length queries. \<exists>ti v. runs i (queries ! i) = Returns ti v"
  shows "\<exists>t rs. batch_parallel_searches runs queries batch_size = Returns t rs"
proof -
  obtain b where b: "batch_size = int b" "0 < b"
    using assms(1) by (cases batch_size) auto
  have "\<forall>a \<in> set (spawn runs 0 queries). \<exists>ta v. a = Returns ta v"
    using assms(2) by (auto simp: in_set_conv_nth nth_spawn)
  from batch_loop_complete [OF b(2) this] show ?thesis
    unfolding batch_parallel_searches_def b py_range_pos [OF b(2)] by simp
qed

lemma all2_spawn_nth:
  assumes "list_all2 (\<lambda>a v. \<exists>ta. a = Returns ta v) (spawn f 0 xs) rs"
  shows "length rs = length xs \<and> (\<forall>i<length xs. \<exists>ti. f i (xs ! i) = Returns ti (rs ! i))"
proof -
  from assms have len: "length rs = length xs"
    by (auto dest: list_all2_lengthD)
  moreover have "\<exists>ti. f i (xs ! i) = Returns ti (rs ! i)" if "i < length xs" for i
    using list_all2_nthD [OF assms, of i] that by (simp add: nth_spawn)
  ultimately show ?thesis by blast
qed

lemma search_eq: "search Runner_run item = Runner_run (input_msg item)"
  by (simp add: search_def split: awaitable.splits)

lemma basic_sound:
  assumes "basic_parallel_searches runs queries = Returns t out"
  shows "length out = length queries \<and>
         (\<forall>i<length queries. \<exists>ti v. runs i (queries ! i) = Returns ti v \<and>
              out ! i = (i + 1, queries ! i, take 100 v))"
proof -
  from assms obtain rs where g: "gather (spawn runs 0 queries) = Returns t rs"
    and out: "out = map (\<lambda>(i, (q, r)). (i, q, take 100 r)) (enumerate 1 (zip queries rs))"
    by (auto simp: basic_parallel_searches_def split: awaitable.splits)
  from all2_spawn_nth [OF gather_Returns [OF g]]
  have len: "length rs = length queries"
    and nth: "\<forall>i<length queries. \<exists>ti. runs i (queries ! i) = Returns ti (rs ! i)" by auto
  have "out ! i = (i + 1, queries ! i, take 100 (rs ! i))" if "i < length queries" for i
    using that len by (simp add: out nth_enumerate_eq)
  with nth len show ?thesis by (auto simp: out)
qed

text \<open>
  C1.  Whenever the fan-out (\<open>basic_parallel_searches\<close>, \<open>perform_searches\<close>) or the batch
  strategy with a batch size of at least 1 returns a sequence for \<open>N\<close> submitted tasks,
  the sequence has \<open>N\<close> entries and entry \<open>i\<close> is what the runner returned for task \<open>i\<close>,
  whatever the latencies of the tasks are; and whenever every runner invocation returns,
  the strategy does return such a sequence.
\<close>

theorem fan_out_preserves_order:
  assumes "1 \<le> batch_size"
  shows "(\<forall>t out. basic_parallel_searches runs queries = Returns t out \<longrightarrow>
            length out = length queries \<and>
            (\<forall>i<length queries. \<exists>ti v. runs i (queries ! i) = Returns ti v \<and>
                 out ! i = (i + 1, queries ! i, take 100 v)))
       \<and> (\<forall>t rs. perform_searches runs plan = Returns t rs \<longrightarrow>
            length rs = length (searches plan) \<and>
            (\<forall>i<length (searches plan).
                 \<exists>ti. runs i (input_msg (searches plan ! i)) = Returns ti (rs ! i)))
       \<and> (\<forall>t rs. batch_parallel_searches runs queries batch_size = Returns t rs \<longrightarrow>
            length rs = length queries \<and>
            (\<forall>i<length queries. \<exists>ti. runs i (queries ! i) = Returns ti (rs ! i)))
       \<and> ((\<forall>i<length queries. \<exists>ti v. runs i (queries ! i) = Returns ti v) \<longrightarrow>
            (\<exists>t out. basic_parallel_searches runs queries = Returns t out) \<and>
            (\<exists>t rs. batch_parallel_searches runs queries batch_size = Returns t rs))
       \<and> ((\<forall>i<length (searches plan).
               \<exists>ti v. runs i (input_msg (searches plan ! i)) = Returns ti v) \<longrightarrow>
            (\<exists>t rs. perform_searches runs plan = Returns t rs))"
proof -
  have basic: "length out = length queries \<and>
      (\<forall>i<length queries. \<exists>ti v. runs i (queries ! i) = Returns ti v \<and>
           out ! i = (i + 1, queries ! i, take 100 v))"
    if "basic_parallel_searches runs queries = Returns t out" for t out
    using that by (rule basic_sound)
  have perform: "length rs = length (searches plan) \<and>
      (\<forall>i<length (searches plan).
           \<exists>ti. runs i (input_msg (searches plan ! i)) = Returns ti (rs ! i))"
    if "perform_searches runs plan = Returns t rs" for t rs
  proof -
    from that have "list_all2 (\<lambda>a v. \<exists>ta. a = Returns ta v)
               (spawn (\<lambda>j. search (runs j)) 0 (searches plan)) rs"
      unfolding perform_searches_def by (rule gather_Returns)
    from all2_spawn_nth [OF this] show ?thesis by (simp add: search_eq)
  qed
  have batch: "length rs = length queries \<and>
      (\<forall>i<length queries. \<exists>ti. runs i (queries ! i) = Returns ti (rs ! i))"
    if "batch_parallel_searches runs queries batch_size = Returns t rs" for t rs
    using all2_spawn_nth [OF batch_sound [OF assms that]] .
  have total: "(\<exists>t out. basic_parallel_searches runs queries = Returns t out) \<and>
      (\<exists>t rs. batch_parallel_searches runs queries batch_size = Returns t rs)"
    if ok: "\<forall>i<length queries. \<exists>ti v. runs i (queries ! i) = Returns ti v"
  proof -
    from ok have "\<forall>a \<in> set (spawn runs 0 queries). \<exists>ta v. a = Returns ta v"
      by (auto simp: in_set_conv_nth nth_spawn)
    then obtain t rs where "gather (spawn runs 0 queries) = Returns t rs"
      using gather_all_return' by blast
    then have "\<exists>t out. basic_parallel_searches runs queries = Returns t out"
      by (simp add: basic_parallel_searches_def)
    moreover have "\<exists>t rs. batch_parallel_searches runs queries batch_size = Returns t rs"
      using assms ok by (rule batch_complete)
    ultimately show ?thesis by blast
  qed
  have total_perform: "\<exists>t rs. perform_searches runs plan = Returns t rs"
    if "\<forall>i<length (searches plan).
             \<exists>ti v. runs i (input_msg (searches plan ! i)) = Returns ti v"
  proof -
    from that have "\<forall>a \<in> set (spawn (\<lambda>j. search (runs j)) 0 (searches plan)).
                      \<exists>ta v. a = Returns ta v"
      by (auto simp: in_set_conv_nth nth_spawn search_eq)
    then show ?thesis
      unfolding perform_searches_def by (rule gather_all_return')
  qed
  from basic perform batch total total_perform show ?thesis by blast
qed


theorem fan_out_preserves_order_witness:
  "(1::int) \<le> 2
   \<and> basic_parallel_searches (\<lambda>i q. Returns (10 - i) (q @ ''!'')) demo_queries
       = Returns 10 [(1, ''OpenAI Agents SDK features'', ''OpenAI Agents SDK features!''),
                     (2, ''LangGraph capabilities'', ''LangGraph capabilities!''),
                     (3, ''Crew AI framework overview'', ''Crew AI framework overview!'')]
   \<and> batch_parallel_searches (\<lambda>i q. Returns (10 - i) (q @ ''!'')) [''a'', ''b'', ''c''] 2
       = Returns 18 [''a!'', ''b!'', ''c!'']
   \<and> perform_searches (\<lambda>i q. Returns (10 - i) (q @ ''!''))
         \<lparr>searches = [\<lparr>reason = ''r'', query = ''a''\<rparr>, \<lparr>reason = ''s'', query = ''b''\<rparr>]\<rparr>
       = Returns 10 [input_msg \<lparr>reason = ''r'', query = ''a''\<rparr> @ ''!'',
                     input_msg \<lparr>reason = ''s'', query = ''b''\<rparr> @ ''!'']
   \<and> length [''a!'', ''b!'', ''c!''] = length [''a'', ''b'', ''c'']
   \<and> (\<exists>ti. (\<lambda>i q. Returns (10 - i) (q @ ''!'')) 2 ([''a'', ''b'', ''c''] ! 2)
            = Returns ti ([''a!'', ''b!'', ''c!''] ! 2))"
proof -
  let ?runs = "\<lambda>(i::nat) q. Returns (10 - i) (q @ ''!'')"
  let ?plan = "\<lparr>searches = [\<lparr>reason = ''r'', query = ''a''\<rparr>, \<lparr>reason = ''s'', query = ''b''\<rparr>]\<rparr>"
  have h: "(1::int) \<le> 2" by simp
  have basic: "basic_parallel_searches ?runs demo_queries
       = Returns 10 [(1, ''OpenAI Agents SDK features'', ''OpenAI Agents SDK features!''),
                     (2, ''LangGraph capabilities'', ''LangGraph capabilities!''),
                     (3, ''Crew AI framework overview'', ''Crew AI framework overview!'')]"
    by code_simp
  have batch: "batch_parallel_searches ?runs [''a'', ''b'', ''c''] 2
       = Returns 18 [''a!'', ''b!'', ''c!'']"
    by code_simp
  have perform: "perform_searches ?runs ?plan
       = Returns 10 [input_msg \<lparr>reason = ''r'', query = ''a''\<rparr> @ ''!'',
                     input_msg \<lparr>reason = ''s'', query = ''b''\<rparr> @ ''!'']"
    by (simp add: perform_searches_def search_def)
  from fan_out_preserves_order [OF h, of ?runs "[''a'', ''b'', ''c'']" ?plan] batch
  have "length [''a!'', ''b!'', ''c!''] = length [''a'', ''b'', ''c''] \<and>
        (\<forall>i<length [''a'', ''b'', ''c''].
            \<exists>ti. ?runs i ([''a'', ''b'', ''c''] ! i) = Returns ti ([''a!'', ''b!'', ''c!''] ! i))"
    by blast
  then have "length [''a!'', ''b!'', ''c!''] = length [''a'', ''b'', ''c''] \<and>
        (\<exists>ti. ?runs 2 ([''a'', ''b'', ''c''] ! 2) = Returns ti ([''a!'', ''b!'', ''c!''] ! 2))"
    by simp
  with h basic batch perform show ?thesis by blast
qed

section \<open>Exceptions in the leaf searches and in a fan-out\<close>

text \<open>
  C3 (as the code has it).  A leaf search awaits the runner once and catches nothing:
  when the runner returns, \<open>search\<close> returns its final output and \<open>search_task\<close> a
  dictionary holding it; when the runner raises, the same exception leaves the call at
  the same moment.  No outcome value is built from an exception.
\<close>

theorem leaf_search_propagates:
  "(Runner_run (input_msg item) = Raises t e \<longrightarrow> search Runner_run item = Raises t e)
   \<and> (Runner_run q = Raises t e \<longrightarrow> search_task Runner_run q agent_id = Raises t e)
   \<and> (Runner_run (input_msg item) = Returns t v \<longrightarrow> search Runner_run item = Returns t v)
   \<and> (Runner_run q = Returns t v \<longrightarrow>
        search_task Runner_run q agent_id =
          Returns t [''agent_id'' \<mapsto> PyInt (int agent_id), ''query'' \<mapsto> PyStr q,
                     ''result'' \<mapsto> PyStr v, ''time'' \<mapsto> PyInt (int t)])"
  by (simp add: search_def search_task_def)

theorem leaf_search_propagates_witness:
  "always_fails (input_msg \<lparr>reason = ''r'', query = ''q''\<rparr>) = Raises 1 (Exn Exception ''boom'')
   \<and> search always_fails \<lparr>reason = ''r'', query = ''q''\<rparr> = Raises 1 (Exn Exception ''boom'')
   \<and> always_fails ''q'' = Raises 1 (Exn Exception ''boom'')
   \<and> search_task always_fails ''q'' 1 = Raises 1 (Exn Exception ''boom'')"
  using leaf_search_propagates [of always_fails "\<lparr>reason = ''r'', query = ''q''\<rparr>" 1
      "Exn Exception ''boom''" "''q''" 1]
  by (simp add: always_fails_def)

text \<open>
  C3 as stated fails: with a runner that raises, both leaf searches raise instead of
  returning an outcome.
\<close>

theorem leaf_search_raises: 
  "search_task always_fails ''q'' 1 = Raises 1 (Exn Exception ''boom'')
   \<and> search always_fails \<lparr>reason = ''r'', query = ''q''\<rparr> = Raises 1 (Exn Exception ''boom'')"
  by (simp add: search_task_def search_def always_fails_def)

lemma join_Raises:
  "join a g = Raises t e \<Longrightarrow>
     (a = Raises t e \<and> (\<forall>t' e'. g = Raises t' e' \<longrightarrow> t \<le> t')) \<or>
     (g = Raises t e \<and> (\<forall>t' e'. a = Raises t' e' \<longrightarrow> t \<le> t'))"
  by (cases a; cases g) (auto split: if_splits)

lemma join_raises_left: "\<exists>t' e'. join (Raises t e) g = Raises t' e'"
  by (cases g) auto

lemma join_raises_right: "\<exists>t' e'. join a (Raises t e) = Raises t' e'"
  by (cases a) auto

lemma gather_some_raise:
  "Raises t e \<in> set aws \<Longrightarrow> \<exists>t' e'. gather aws = Raises t' e'"
proof (induction aws)
  case Nil
  then show ?case by simp
next
  case (Cons a aws)
  show ?case
  proof (cases "a = Raises t e")
    case True
    then show ?thesis using join_raises_left [of t e "gather aws"] by simp
  next
    case False
    with Cons obtain tg eg where "gather aws = Raises tg eg" by auto
    then show ?thesis using join_raises_right [of a tg eg] by simp
  qed
qed

lemma gather_Raises:
  "gather aws = Raises t e \<Longrightarrow>
     Raises t e \<in> set aws \<and> (\<forall>t' e'. Raises t' e' \<in> set aws \<longrightarrow> t \<le> t')"
proof (induction aws arbitrary: t e)
  case Nil
  then show ?case by simp
next
  case (Cons a aws)
  from join_Raises [of a "gather aws" t e] Cons.prems
  consider (head) "a = Raises t e" "\<forall>t' e'. gather aws = Raises t' e' \<longrightarrow> t \<le> t'"
    | (tail) "gather aws = Raises t e" "\<forall>t' e'. a = Raises t' e' \<longrightarrow> t \<le> t'"
    by auto
  then show ?case
  proof cases
    case head
    have "t \<le> t'" if "Raises t' e' \<in> set aws" for t' e'
    proof (cases "gather aws")
      case (Raises tg eg)
      with Cons.IH [of tg eg] that head(2) show ?thesis by fastforce
    next
      case (Returns tg vs)
      from gather_Returns [OF this] that show ?thesis
        by (auto simp: list_all2_conv_all_nth in_set_conv_nth)
    next
      case Hangs
      with gather_some_raise [OF that] show ?thesis by simp
    qed
    with head show ?thesis by auto
  next
    case tail
    with Cons.IH [of t e] show ?thesis by auto
  qed
qed


lemma gather_first_exception:
  assumes "Raises ti ei \<in> set aws"
  shows "\<exists>t e. gather aws = Raises t e \<and> Raises t e \<in> set aws \<and> t \<le> ti"
proof -
  from gather_some_raise [OF assms] obtain t e where g: "gather aws = Raises t e" by blast
  from gather_Raises [OF g] assms show ?thesis using g by blast
qed

lemma spawn_set:
  "a \<in> set (spawn f 0 xs) \<longleftrightarrow> (\<exists>j<length xs. f j (xs ! j) = a)"
  by (auto simp: in_set_conv_nth nth_spawn)

lemma batch_loop_raises:
  assumes b: "0 < b" and cover: "length qs \<le> m * b"
    and nohang: "Hangs \<notin> set (spawn runs 0 qs)"
  shows "\<exists>a \<in> set (drop (k0 * b) (spawn runs 0 qs)). \<exists>tj ej. a = Raises tj ej \<Longrightarrow>
         \<exists>t tj e. Raises tj e \<in> set (spawn runs 0 qs) \<and>
           batch_loop runs qs (int b) (map (\<lambda>k. int (k * b)) [k0..<m]) now results = Raises t e"
proof (induction "m - k0" arbitrary: k0 now results)
  case 0
  then have "m \<le> k0" by simp
  then have "m * b \<le> k0 * b" by (rule mult_le_mono1)
  with cover have "length (spawn runs 0 qs) \<le> k0 * b"
    using length_spawn [of runs 0 qs] by linarith
  then have "drop (k0 * b) (spawn runs 0 qs) = []" by (rule drop_all)
  with 0 show ?case by simp
next
  case (Suc d)
  then have lt: "k0 < m" by simp
  let ?T = "spawn runs 0 qs"
  let ?chunk = "take b (drop (k0 * b) ?T)"
  have unfold: "map (\<lambda>k. int (k * b)) [k0..<m] = int (k0 * b) # map (\<lambda>k. int (k * b)) [Suc k0..<m]"
    using lt by (simp add: upt_conv_Cons del: of_nat_mult)
  have sub: "set ?chunk \<subseteq> set ?T"
    by (meson in_set_dropD in_set_takeD subsetI)
  have "drop (k0 * b) ?T = ?chunk @ drop b (drop (k0 * b) ?T)"
    by (rule append_take_drop_id [symmetric])
  also have "drop b (drop (k0 * b) ?T) = drop (Suc k0 * b) ?T" by (simp add: add.commute)
  finally have split: "drop (k0 * b) ?T = ?chunk @ drop (Suc k0 * b) ?T" .
  show ?case
  proof (cases "\<exists>tj ej. Raises tj ej \<in> set ?chunk")
    case True
    then obtain tj ej where "Raises tj ej \<in> set ?chunk" by blast
    from gather_first_exception [OF this] obtain t e where
      "gather ?chunk = Raises t e" "Raises t e \<in> set ?chunk" by blast
    with sub show ?thesis
      unfolding unfold batch_loop_step by auto
  next
    case False
    have "\<forall>a \<in> set ?chunk. \<exists>ta v. a = Returns ta v"
    proof
      fix a assume a: "a \<in> set ?chunk"
      with sub nohang have "a \<noteq> Hangs" by auto
      with False a show "\<exists>ta v. a = Returns ta v" by (cases a) auto
    qed
    then obtain t1 vs1 where g: "gather ?chunk = Returns t1 vs1"
      using gather_all_return' by blast
    from Suc.prems False split
    have later: "\<exists>a \<in> set (drop (Suc k0 * b) ?T). \<exists>tj ej. a = Raises tj ej"
      by (metis Un_iff set_append)
    from Suc.hyps(2) have "d = m - Suc k0" by simp
    from Suc.hyps(1) [OF this later] show ?thesis
      unfolding unfold batch_loop_step g by simp
  qed
qed


text \<open>
  C4 (as the code has it).  When the runner raises for some task, a fan-out returns no
  sequence: \<open>basic_parallel_searches\<close> and \<open>perform_searches\<close> raise the exception of a
  task that fails first, at the moment it fails and without waiting for the other tasks.
  The batch strategy with a batch size of at least 1 returns no sequence either, and
  when no task hangs it raises an exception that one of the tasks raised.
\<close>

theorem fan_out_fails_fast:
  assumes "i < length queries" and "runs i (queries ! i) = Raises ti ei" and "1 \<le> batch_size"
  shows "(\<exists>t e j. j < length queries \<and> runs j (queries ! j) = Raises t e \<and> t \<le> ti \<and>
            basic_parallel_searches runs queries = Raises t e)
       \<and> (\<forall>t rs. batch_parallel_searches runs queries batch_size \<noteq> Returns t rs)
       \<and> ((\<forall>j<length queries. runs j (queries ! j) \<noteq> Hangs) \<longrightarrow>
            (\<exists>t tj e j. j < length queries \<and> runs j (queries ! j) = Raises tj e \<and>
               batch_parallel_searches runs queries batch_size = Raises t e))
       \<and> (\<forall>k tk ek. k < length (searches plan) \<and>
               runs k (input_msg (searches plan ! k)) = Raises tk ek \<longrightarrow>
            (\<exists>t e j. j < length (searches plan) \<and>
               runs j (input_msg (searches plan ! j)) = Raises t e \<and> t \<le> tk \<and>
               perform_searches runs plan = Raises t e))"
proof -
  let ?T = "spawn runs 0 queries"
  have mem: "Raises ti ei \<in> set ?T"
    using assms(1,2) by (auto simp: spawn_set)
  have basic: "\<exists>t e j. j < length queries \<and> runs j (queries ! j) = Raises t e \<and> t \<le> ti \<and>
            basic_parallel_searches runs queries = Raises t e"
  proof -
    from gather_first_exception [OF mem] obtain t e where
      g: "gather ?T = Raises t e" and m: "Raises t e \<in> set ?T" and le: "t \<le> ti" by blast
    from m obtain j where "j < length queries" "runs j (queries ! j) = Raises t e"
      by (auto simp: spawn_set)
    with g le show ?thesis by (auto simp: basic_parallel_searches_def)
  qed
  have noreturn: "batch_parallel_searches runs queries batch_size \<noteq> Returns t rs" for t rs
  proof
    assume "batch_parallel_searches runs queries batch_size = Returns t rs"
    from all2_spawn_nth [OF batch_sound [OF assms(3) this]] assms(1,2)
    show False by auto
  qed
  have batch: "\<exists>t tj e j. j < length queries \<and> runs j (queries ! j) = Raises tj e \<and>
               batch_parallel_searches runs queries batch_size = Raises t e"
    if nohang: "\<forall>j<length queries. runs j (queries ! j) \<noteq> Hangs"
  proof -
    obtain b where b: "batch_size = int b" "0 < b"
      using assms(3) by (cases batch_size) auto
    from nohang have nh: "Hangs \<notin> set ?T" by (auto simp: spawn_set)
    from mem have "\<exists>a \<in> set (drop (0 * b) ?T). \<exists>tj ej. a = Raises tj ej" by auto
    from batch_loop_raises [OF b(2) chunks_cover [OF b(2)] nh this, of 0 "[]"]
    obtain t tj e where "Raises tj e \<in> set ?T"
      "batch_parallel_searches runs queries batch_size = Raises t e"
      unfolding batch_parallel_searches_def b py_range_pos [OF b(2)] by auto
    then show ?thesis by (auto simp: spawn_set)
  qed
  have perform: "\<exists>t e j. j < length (searches plan) \<and>
               runs j (input_msg (searches plan ! j)) = Raises t e \<and> t \<le> tk \<and>
               perform_searches runs plan = Raises t e"
    if "k < length (searches plan)" "runs k (input_msg (searches plan ! k)) = Raises tk ek"
    for k tk ek
  proof -
    let ?P = "spawn (\<lambda>j. search (runs j)) 0 (searches plan)"
    from that have "Raises tk ek \<in> set ?P"
      by (auto simp: spawn_set search_eq)
    from gather_first_exception [OF this] obtain t e where
      g: "gather ?P = Raises t e" and m: "Raises t e \<in> set ?P" and le: "t \<le> tk" by blast
    from m obtain j where "j < length (searches plan)"
      "runs j (input_msg (searches plan ! j)) = Raises t e"
      by (auto simp: spawn_set search_eq)
    with g le show ?thesis by (auto simp: perform_searches_def)
  qed
  from basic noreturn batch perform show ?thesis by blast
qed

theorem fan_out_fails_fast_witness:
  "(1::nat) < length [''a'', ''b'', ''c'']
   \<and> fails_second 1 ([''a'', ''b'', ''c''] ! 1) = Raises 1 (Exn Exception ''boom'')
   \<and> (1::int) \<le> 2
   \<and> (\<exists>t e j. j < length [''a'', ''b'', ''c''] \<and>
         fails_second j ([''a'', ''b'', ''c''] ! j) = Raises t e \<and> t \<le> 1 \<and>
         basic_parallel_searches fails_second [''a'', ''b'', ''c''] = Raises t e)
   \<and> (\<exists>t tj e j. j < length [''a'', ''b'', ''c''] \<and>
         fails_second j ([''a'', ''b'', ''c''] ! j) = Raises tj e \<and>
         batch_parallel_searches fails_second [''a'', ''b'', ''c''] 2 = Raises t e)"
proof -
  have h1: "(1::nat) < length [''a'', ''b'', ''c'']" by simp
  have h2: "fails_second 1 ([''a'', ''b'', ''c''] ! 1) = Raises 1 (Exn Exception ''boom'')"
    by (simp add: fails_second_def)
  have h3: "(1::int) \<le> 2" by simp
  have nh: "\<forall>j<length [''a'', ''b'', ''c'']. fails_second j ([''a'', ''b'', ''c''] ! j) \<noteq> Hangs"
    by (simp add: fails_second_def)
  from fan_out_fails_fast [where i = 1 and queries = "[''a'', ''b'', ''c'']"
      and runs = fails_second and ti = 1 and ei = "Exn Exception ''boom''" and batch_size = 2,
      OF h1 h2 h3] nh h1 h2 h3
  show ?thesis by blast
qed

text \<open>
  C4 as stated fails: with three tasks of which the second raises after one tick and the
  others return after five, both strategies raise at tick one; no sequence is returned.
\<close>

theorem fan_out_raises:
  "basic_parallel_searches fails_second [''a'', ''b'', ''c''] = Raises 1 (Exn Exception ''boom'')
   \<and> batch_parallel_searches fails_second [''a'', ''b'', ''c''] 2 = Raises 1 (Exn Exception ''boom'')"
  by code_simp

section \<open>The retry loop\<close>

lemma retry_empty_range:
  "max_retries \<le> 0 \<Longrightarrow> search_with_retry runs q max_retries = ([], Returns 0 None)"
  by (simp add: search_with_retry_def py_range1_def)

lemma retry_loop_failures:
  assumes "\<forall>a. k \<le> a \<and> a < m \<longrightarrow> (\<exists>t e. runs a q = Raises t e \<and> isinstance_Exception e)"
    and "k \<le> m" and "m < n"
  shows "\<exists>now'. retry_loop runs q (int n) [k..<n] now =
           (concat (map (\<lambda>a. [Invoke a q, Sleep (2 ^ a)]) [k..<m]) @ fst (retry_loop runs q (int n) [m..<n] now'),
            snd (retry_loop runs q (int n) [m..<n] now'))"
  using assms
proof (induction "m - k" arbitrary: k now)
  case 0
  then have "k = m" by simp
  then show ?case by auto
next
  case (Suc d)
  then have lt: "k < m" by simp
  with Suc.prems obtain t e where r: "runs k q = Raises t e" "isinstance_Exception e" by auto
  have notlast: "int k \<noteq> int n - 1" using lt Suc.prems(3) by linarith
  have kn: "k < n" using lt Suc.prems(3) by simp
  from Suc.hyps(2) have d: "d = m - Suc k" by simp
  have "\<forall>a. Suc k \<le> a \<and> a < m \<longrightarrow> (\<exists>t e. runs a q = Raises t e \<and> isinstance_Exception e)"
    using Suc.prems(1) by auto
  from Suc.hyps(1) [OF d this _ Suc.prems(3), of "now + t + 2 ^ k"] lt
  obtain now' where ih: "retry_loop runs q (int n) [Suc k..<n] (now + t + 2 ^ k) =
           (concat (map (\<lambda>a. [Invoke a q, Sleep (2 ^ a)]) [Suc k..<m]) @ fst (retry_loop runs q (int n) [m..<n] now'),
            snd (retry_loop runs q (int n) [m..<n] now'))"
    by auto
  have "retry_loop runs q (int n) [k..<n] now =
          (Invoke k q # Sleep (2 ^ k) # fst (retry_loop runs q (int n) [Suc k..<n] (now + t + 2 ^ k)),
           snd (retry_loop runs q (int n) [Suc k..<n] (now + t + 2 ^ k)))"
    using r notlast kn by (simp add: upt_conv_Cons split: prod.splits)
  with ih lt show ?case by (auto simp: upt_conv_Cons)
qed

lemma retry_loop_last:
  assumes "m < n"
  shows "retry_loop runs q (int n) [m..<n] now =
     (case runs m q of
        Returns t v \<Rightarrow>
          ([Invoke m q],
           Returns (now + t)
             (Some [''query'' \<mapsto> PyStr q, ''result'' \<mapsto> PyStr v,
                    ''attempts'' \<mapsto> PyInt (int m + 1)]))
      | Raises t e \<Rightarrow>
          if isinstance_Exception e then
            if Suc m = n
            then ([Invoke m q],
                  Returns (now + t)
                    (Some [''query'' \<mapsto> PyStr q, ''result'' \<mapsto> PyNone,
                           ''error'' \<mapsto> PyStr (str e),
                           ''attempts'' \<mapsto> PyInt (int m + 1)]))
            else (Invoke m q # Sleep (2 ^ m) # fst (retry_loop runs q (int n) [Suc m..<n] (now + t + 2 ^ m)),
                  snd (retry_loop runs q (int n) [Suc m..<n] (now + t + 2 ^ m)))
          else ([Invoke m q], Raises (now + t) e)
      | Hangs \<Rightarrow> ([Invoke m q], Hangs))"
proof -
  have last: "(int m = int n - 1) = (Suc m = n)" by linarith
  have range: "[m..<n] = m # [Suc m..<n]" using assms by (rule upt_conv_Cons)
  show ?thesis
  proof (cases "runs m q")
    case (Returns t v)
    then show ?thesis unfolding range by simp
  next
    case (Raises t e)
    then show ?thesis unfolding range by (simp add: last case_prod_beta)
  next
    case Hangs
    then show ?thesis unfolding range by simp
  qed
qed

lemma retry_loop_head:
  assumes "m < n"
  shows "\<exists>rest. fst (retry_loop runs q max_retries [m..<n] now) = Invoke m q # rest"
proof -
  have range: "[m..<n] = m # [Suc m..<n]" using assms by (rule upt_conv_Cons)
  show ?thesis
    unfolding range by (cases "runs m q") (simp_all add: case_prod_beta)
qed

lemma retry_run:
  assumes "1 \<le> max_retries" and "m < nat max_retries"
    and "\<forall>a<m. \<exists>t e. runs a q = Raises t e \<and> isinstance_Exception e"
  shows "\<exists>now'. search_with_retry runs q max_retries =
           (concat (map (\<lambda>a. [Invoke a q, Sleep (2 ^ a)]) [0..<m]) @
              fst (retry_loop runs q max_retries [m..<nat max_retries] now'),
            snd (retry_loop runs q max_retries [m..<nat max_retries] now'))"
proof -
  have n: "int (nat max_retries) = max_retries" using assms(1) by simp
  have "\<forall>a. 0 \<le> a \<and> a < m \<longrightarrow> (\<exists>t e. runs a q = Raises t e \<and> isinstance_Exception e)"
    using assms(3) by simp
  moreover have "0 \<le> m" by simp
  ultimately have "\<exists>now'. retry_loop runs q (int (nat max_retries)) [0..<nat max_retries] 0 =
           (concat (map (\<lambda>a. [Invoke a q, Sleep (2 ^ a)]) [0..<m]) @
              fst (retry_loop runs q (int (nat max_retries)) [m..<nat max_retries] now'),
            snd (retry_loop runs q (int (nat max_retries)) [m..<nat max_retries] now'))"
    using assms(2) by (rule retry_loop_failures)
  then show ?thesis
    unfolding search_with_retry_def py_range1_def n .
qed


text \<open>
  C5.  With \<^verbatim>\<open>max_retries\<close> at least 1: when every one of the \<^verbatim>\<open>max_retries\<close> invocations
  fails with an \<^verbatim>\<open>Exception\<close>, the call returns the failure dictionary with the message of
  the last error and \<^verbatim>\<open>attempts = max_retries\<close>; when invocation \<open>m\<close> is the first to
  return, the call returns the success dictionary with \<^verbatim>\<open>attempts = m + 1\<close>.  In both
  cases the log shows the invocations made, and none after the one that ended the loop.
\<close>

theorem retry_attempt_count:
  assumes "1 \<le> max_retries"
  shows "((\<forall>a<nat max_retries. \<exists>t e. runs a q = Raises t e \<and> isinstance_Exception e) \<longrightarrow>
           (\<exists>t t' e. runs (nat max_retries - 1) q = Raises t' e \<and>
              search_with_retry runs q max_retries =
                (concat (map (\<lambda>a. [Invoke a q, Sleep (2 ^ a)]) [0..<nat max_retries - 1]) @
                   [Invoke (nat max_retries - 1) q],
                 Returns t (Some [''query'' \<mapsto> PyStr q, ''result'' \<mapsto> PyNone,
                                  ''error'' \<mapsto> PyStr (str e),
                                  ''attempts'' \<mapsto> PyInt max_retries]))))
       \<and> (\<forall>m tv v. m < nat max_retries \<and>
               (\<forall>a<m. \<exists>t e. runs a q = Raises t e \<and> isinstance_Exception e) \<and>
               runs m q = Returns tv v \<longrightarrow>
           (\<exists>t. search_with_retry runs q max_retries =
                (concat (map (\<lambda>a. [Invoke a q, Sleep (2 ^ a)]) [0..<m]) @ [Invoke m q],
                 Returns t (Some [''query'' \<mapsto> PyStr q, ''result'' \<mapsto> PyStr v,
                                  ''attempts'' \<mapsto> PyInt (int m + 1)]))))"
proof -
  let ?n = "nat max_retries"
  have n: "int ?n = max_retries" "0 < ?n" using assms by simp_all
  have exhausted: "\<exists>t t' e. runs (?n - 1) q = Raises t' e \<and>
              search_with_retry runs q max_retries =
                (concat (map (\<lambda>a. [Invoke a q, Sleep (2 ^ a)]) [0..<?n - 1]) @ [Invoke (?n - 1) q],
                 Returns t (Some [''query'' \<mapsto> PyStr q, ''result'' \<mapsto> PyNone,
                                  ''error'' \<mapsto> PyStr (str e),
                                  ''attempts'' \<mapsto> PyInt max_retries]))"
    if all: "\<forall>a<?n. \<exists>t e. runs a q = Raises t e \<and> isinstance_Exception e"
  proof -
    have last: "?n - 1 < ?n" using n(2) by simp
    with all obtain t' e where r: "runs (?n - 1) q = Raises t' e" "isinstance_Exception e"
      by blast
    have "\<forall>a<?n - 1. \<exists>t e. runs a q = Raises t e \<and> isinstance_Exception e"
      using all by simp
    with assms last have "\<exists>now'. search_with_retry runs q max_retries =
           (concat (map (\<lambda>a. [Invoke a q, Sleep (2 ^ a)]) [0..<?n - 1]) @
              fst (retry_loop runs q max_retries [?n - 1..<?n] now'),
            snd (retry_loop runs q max_retries [?n - 1..<?n] now'))"
      by (rule retry_run)
    then obtain now' where
      "search_with_retry runs q max_retries =
           (concat (map (\<lambda>a. [Invoke a q, Sleep (2 ^ a)]) [0..<?n - 1]) @
              fst (retry_loop runs q max_retries [?n - 1..<?n] now'),
            snd (retry_loop runs q max_retries [?n - 1..<?n] now'))" by blast
    moreover have "retry_loop runs q max_retries [?n - 1..<?n] now' =
        ([Invoke (?n - 1) q],
         Returns (now' + t')
           (Some [''query'' \<mapsto> PyStr q, ''result'' \<mapsto> PyNone,
                  ''error'' \<mapsto> PyStr (str e), ''attempts'' \<mapsto> PyInt max_retries]))"
      using retry_loop_last [OF last, of runs q now'] r n by (simp add: of_nat_diff)
    ultimately show ?thesis using r(1) by auto
  qed
  have success: "\<exists>t. search_with_retry runs q max_retries =
                (concat (map (\<lambda>a. [Invoke a q, Sleep (2 ^ a)]) [0..<m]) @ [Invoke m q],
                 Returns t (Some [''query'' \<mapsto> PyStr q, ''result'' \<mapsto> PyStr v,
                                  ''attempts'' \<mapsto> PyInt (int m + 1)]))"
    if m: "m < ?n" and fails: "\<forall>a<m. \<exists>t e. runs a q = Raises t e \<and> isinstance_Exception e"
      and ok: "runs m q = Returns tv v" for m tv v
  proof -
    from assms m fails have "\<exists>now'. search_with_retry runs q max_retries =
           (concat (map (\<lambda>a. [Invoke a q, Sleep (2 ^ a)]) [0..<m]) @
              fst (retry_loop runs q max_retries [m..<?n] now'),
            snd (retry_loop runs q max_retries [m..<?n] now'))"
      by (rule retry_run)
    then obtain now' where
      "search_with_retry runs q max_retries =
           (concat (map (\<lambda>a. [Invoke a q, Sleep (2 ^ a)]) [0..<m]) @
              fst (retry_loop runs q max_retries [m..<?n] now'),
            snd (retry_loop runs q max_retries [m..<?n] now'))" by blast
    moreover have "retry_loop runs q max_retries [m..<?n] now' =
        ([Invoke m q],
         Returns (now' + tv)
           (Some [''query'' \<mapsto> PyStr q, ''result'' \<mapsto> PyStr v,
                  ''attempts'' \<mapsto> PyInt (int m + 1)]))"
      using retry_loop_last [OF m, of runs q now'] ok n by simp
    ultimately show ?thesis by auto
  qed
  from exhausted success show ?thesis by blast
qed


theorem retry_attempt_count_witness:
  "(1::int) \<le> 3 \<and> (2::nat) < nat 3
   \<and> fails_twice 0 ''q'' = Raises 1 (Exn Exception ''boom'')
   \<and> fails_twice 1 ''q'' = Raises 1 (Exn Exception ''boom'')
   \<and> fails_twice 2 ''q'' = Returns 1 ''ok''
   \<and> (\<exists>t. search_with_retry fails_twice ''q'' 3 =
         ([Invoke 0 ''q'', Sleep 1, Invoke 1 ''q'', Sleep 2, Invoke 2 ''q''],
          Returns t (Some [''query'' \<mapsto> PyStr ''q'', ''result'' \<mapsto> PyStr ''ok'',
                           ''attempts'' \<mapsto> PyInt 3])))
   \<and> (1::int) \<le> 2
   \<and> (\<exists>t. search_with_retry fails_twice ''q'' 2 =
         ([Invoke 0 ''q'', Sleep 1, Invoke 1 ''q''],
          Returns t (Some [''query'' \<mapsto> PyStr ''q'', ''result'' \<mapsto> PyNone,
                           ''error'' \<mapsto> PyStr ''boom'', ''attempts'' \<mapsto> PyInt 2])))"
proof -
  have h3: "(1::int) \<le> 3" and h2: "(1::int) \<le> 2" and m: "(2::nat) < nat 3" by simp_all
  have r0: "fails_twice 0 ''q'' = Raises 1 (Exn Exception ''boom'')"
    and r1: "fails_twice 1 ''q'' = Raises 1 (Exn Exception ''boom'')"
    and r2: "fails_twice 2 ''q'' = Returns 1 ''ok''"
    by (simp_all add: fails_twice_def)
  have two: "[0..<2] = [0, Suc 0]" by (simp add: upt_rec)
  have fails: "\<forall>a<2. \<exists>t e. fails_twice a ''q'' = Raises t e \<and> isinstance_Exception e"
    by (simp add: fails_twice_def)
  from retry_attempt_count [OF h3, of fails_twice "''q''"] m fails r2
  have "\<exists>t. search_with_retry fails_twice ''q'' 3 =
         (concat (map (\<lambda>a. [Invoke a ''q'', Sleep (2 ^ a)]) [0..<2]) @ [Invoke 2 ''q''],
          Returns t (Some [''query'' \<mapsto> PyStr ''q'', ''result'' \<mapsto> PyStr ''ok'',
                           ''attempts'' \<mapsto> PyInt (int 2 + 1)]))"
    by blast
  then have success: "\<exists>t. search_with_retry fails_twice ''q'' 3 =
         ([Invoke 0 ''q'', Sleep 1, Invoke 1 ''q'', Sleep 2, Invoke 2 ''q''],
          Returns t (Some [''query'' \<mapsto> PyStr ''q'', ''result'' \<mapsto> PyStr ''ok'',
                           ''attempts'' \<mapsto> PyInt 3]))"
    by (simp add: two)
  have "\<forall>a<nat 2. \<exists>t e. fails_twice a ''q'' = Raises t e \<and> isinstance_Exception e"
    by (simp add: fails_twice_def)
  with retry_attempt_count [OF h2, of fails_twice "''q''"]
  have "\<exists>t t' e. fails_twice (nat 2 - 1) ''q'' = Raises t' e \<and>
          search_with_retry fails_twice ''q'' 2 =
            (concat (map (\<lambda>a. [Invoke a ''q'', Sleep (2 ^ a)]) [0..<nat 2 - 1]) @
               [Invoke (nat 2 - 1) ''q''],
             Returns t (Some [''query'' \<mapsto> PyStr ''q'', ''result'' \<mapsto> PyNone,
                              ''error'' \<mapsto> PyStr (str e), ''attempts'' \<mapsto> PyInt 2]))"
    by blast
  then have exhausted: "\<exists>t. search_with_retry fails_twice ''q'' 2 =
         ([Invoke 0 ''q'', Sleep 1, Invoke 1 ''q''],
          Returns t (Some [''query'' \<mapsto> PyStr ''q'', ''result'' \<mapsto> PyNone,
                           ''error'' \<mapsto> PyStr ''boom'', ''attempts'' \<mapsto> PyInt 2]))"
    by (auto simp: fails_twice_def)
  from h3 h2 m r0 r1 r2 success exhausted show ?thesis by blast
qed

text \<open>
  C7.  Attempts counted from 1: if attempts \<open>1, \<dots>, A - 1\<close> fail with an \<^verbatim>\<open>Exception\<close> and
  \<open>A\<close> attempts are allowed, then between attempt \<open>i\<close> and attempt \<open>i + 1\<close> the call
  sleeps exactly \<open>2 ^ (i - 1)\<close> ticks, for every \<open>i < A\<close>: the base delay of the source
  is the unit (\<^verbatim>\<open>2 ** attempt\<close> seconds, \<^verbatim>\<open>attempt\<close> counted from 0), it doubles each
  time, and nothing is added to it or cuts it off.
\<close>

theorem backoff_doubles:
  assumes "1 \<le> A" and "int A \<le> max_retries"
    and "\<forall>i. 1 \<le> i \<and> i < A \<longrightarrow> (\<exists>t e. runs (i - 1) q = Raises t e \<and> isinstance_Exception e)"
  shows "\<exists>rest. fst (search_with_retry runs q max_retries) =
           concat (map (\<lambda>i. [Invoke (i - 1) q, Sleep (2 ^ (i - 1))]) [1..<A]) @
             Invoke (A - 1) q # rest"
proof -
  let ?n = "nat max_retries"
  have one: "1 \<le> max_retries" using assms(1,2) by linarith
  have m: "A - 1 < ?n" using assms(1,2) by linarith
  have fails: "\<forall>a<A - 1. \<exists>t e. runs a q = Raises t e \<and> isinstance_Exception e"
  proof (intro allI impI)
    fix a assume "a < A - 1"
    then have "1 \<le> Suc a \<and> Suc a < A" by linarith
    with assms(3) show "\<exists>t e. runs a q = Raises t e \<and> isinstance_Exception e"
      by (metis diff_Suc_1)
  qed
  from one m fails have "\<exists>now'. search_with_retry runs q max_retries =
           (concat (map (\<lambda>a. [Invoke a q, Sleep (2 ^ a)]) [0..<A - 1]) @
              fst (retry_loop runs q max_retries [A - 1..<?n] now'),
            snd (retry_loop runs q max_retries [A - 1..<?n] now'))"
    by (rule retry_run)
  then obtain now' where run: "fst (search_with_retry runs q max_retries) =
           concat (map (\<lambda>a. [Invoke a q, Sleep (2 ^ a)]) [0..<A - 1]) @
              fst (retry_loop runs q max_retries [A - 1..<?n] now')" by auto
  have "\<exists>rest. fst (retry_loop runs q max_retries [A - 1..<?n] now') = Invoke (A - 1) q # rest"
    using m by (rule retry_loop_head)
  moreover have "map (\<lambda>a. [Invoke a q, Sleep (2 ^ a)]) [0..<A - 1] =
                 map (\<lambda>i. [Invoke (i - 1) q, Sleep (2 ^ (i - 1))]) [1..<A]"
  proof -
    have "[1..<A] = map Suc [0..<A - 1]"
      using assms(1) by (metis One_nat_def Suc_pred' map_Suc_upt less_eq_Suc_le)
    then show ?thesis by (simp add: comp_def)
  qed
  ultimately show ?thesis using run by auto
qed


theorem backoff_doubles_witness:
  "(1::nat) \<le> 4 \<and> int 4 \<le> 4
   \<and> never_succeeds 0 ''q'' = Raises 1 (Exn Exception ''boom'')
   \<and> never_succeeds 1 ''q'' = Raises 1 (Exn Exception ''boom'')
   \<and> never_succeeds 2 ''q'' = Raises 1 (Exn Exception ''boom'')
   \<and> (\<exists>rest. fst (search_with_retry never_succeeds ''q'' 4) =
         [Invoke 0 ''q'', Sleep 1, Invoke 1 ''q'', Sleep 2, Invoke 2 ''q'', Sleep 4, Invoke 3 ''q'']
           @ rest)"
proof -
  have h1: "(1::nat) \<le> 4" and h2: "int 4 \<le> 4" by simp_all
  have r: "never_succeeds 0 ''q'' = Raises 1 (Exn Exception ''boom'')"
    "never_succeeds 1 ''q'' = Raises 1 (Exn Exception ''boom'')"
    "never_succeeds 2 ''q'' = Raises 1 (Exn Exception ''boom'')"
    by (simp_all add: never_succeeds_def)
  have h3: "\<forall>i. 1 \<le> i \<and> i < 4 \<longrightarrow>
      (\<exists>t e. never_succeeds (i - 1) ''q'' = Raises t e \<and> isinstance_Exception e)"
    by (simp add: never_succeeds_def)
  have four: "[Suc 0..<4] = [Suc 0, 2, 3]" by (simp add: upt_rec)
  from backoff_doubles [where A = 4 and max_retries = 4 and runs = never_succeeds
      and q = "''q''", OF h1 h2 h3]
  have "\<exists>rest. fst (search_with_retry never_succeeds ''q'' 4) =
         [Invoke 0 ''q'', Sleep 1, Invoke 1 ''q'', Sleep 2, Invoke 2 ''q'', Sleep 4, Invoke 3 ''q'']
           @ rest"
    by (simp add: four)
  with h1 h2 r show ?thesis by blast
qed

lemma TimeoutError_is_Exception: "isinstance_TimeoutError e \<Longrightarrow> isinstance_Exception e"
  by (cases e) simp

text \<open>
  C6 (as the code has it).  The handler is \<^verbatim>\<open>except Exception\<close>.  An attempt that raises
  an exception outside \<^verbatim>\<open>Exception\<close> (a cancellation) ends the call at once: the exception
  leaves the call and no further invocation is made.  An attempt that raises
  \<^verbatim>\<open>TimeoutError\<close> is retried like any other failure: unless it was the last attempt
  allowed, the call sleeps and invokes the runner again.
\<close>

theorem retry_catches_every_Exception:
  assumes "m < nat max_retries"
    and "\<forall>a<m. \<exists>t e. runs a q = Raises t e \<and> isinstance_Exception e"
    and "runs m q = Raises tm e"
  shows "(\<not> isinstance_Exception e \<longrightarrow>
           (\<exists>t. search_with_retry runs q max_retries =
              (concat (map (\<lambda>a. [Invoke a q, Sleep (2 ^ a)]) [0..<m]) @ [Invoke m q],
               Raises t e)))
       \<and> (isinstance_TimeoutError e \<and> Suc m < nat max_retries \<longrightarrow>
           (\<exists>rest. fst (search_with_retry runs q max_retries) =
              concat (map (\<lambda>a. [Invoke a q, Sleep (2 ^ a)]) [0..<m]) @
                Invoke m q # Sleep (2 ^ m) # Invoke (Suc m) q # rest))"
proof -
  let ?n = "nat max_retries"
  have one: "1 \<le> max_retries" using assms(1) by linarith
  have n: "int ?n = max_retries" using one by simp
  have base: "\<exists>t. search_with_retry runs q max_retries =
              (concat (map (\<lambda>a. [Invoke a q, Sleep (2 ^ a)]) [0..<m]) @ [Invoke m q],
               Raises t e)"
    if base_exn: "\<not> isinstance_Exception e"
  proof -
    from one assms(1,2) have "\<exists>now'. search_with_retry runs q max_retries =
           (concat (map (\<lambda>a. [Invoke a q, Sleep (2 ^ a)]) [0..<m]) @
              fst (retry_loop runs q max_retries [m..<?n] now'),
            snd (retry_loop runs q max_retries [m..<?n] now'))"
      by (rule retry_run)
    then obtain now' where
      "search_with_retry runs q max_retries =
           (concat (map (\<lambda>a. [Invoke a q, Sleep (2 ^ a)]) [0..<m]) @
              fst (retry_loop runs q max_retries [m..<?n] now'),
            snd (retry_loop runs q max_retries [m..<?n] now'))" by blast
    moreover have "retry_loop runs q max_retries [m..<?n] now' =
        ([Invoke m q], Raises (now' + tm) e)"
      using retry_loop_last [OF assms(1), of runs q now'] assms(3) base_exn n by simp
    ultimately show ?thesis by auto
  qed
  have retried: "\<exists>rest. fst (search_with_retry runs q max_retries) =
              concat (map (\<lambda>a. [Invoke a q, Sleep (2 ^ a)]) [0..<m]) @
                Invoke m q # Sleep (2 ^ m) # Invoke (Suc m) q # rest"
    if tmo: "isinstance_TimeoutError e" and more: "Suc m < ?n"
  proof -
    have "\<forall>a<Suc m. \<exists>t e. runs a q = Raises t e \<and> isinstance_Exception e"
      using assms(2,3) TimeoutError_is_Exception [OF tmo] by (auto simp: less_Suc_eq)
    with one more have "\<exists>now'. search_with_retry runs q max_retries =
           (concat (map (\<lambda>a. [Invoke a q, Sleep (2 ^ a)]) [0..<Suc m]) @
              fst (retry_loop runs q max_retries [Suc m..<?n] now'),
            snd (retry_loop runs q max_retries [Suc m..<?n] now'))"
      by (rule retry_run)
    then obtain now' where run: "fst (search_with_retry runs q max_retries) =
           concat (map (\<lambda>a. [Invoke a q, Sleep (2 ^ a)]) [0..<Suc m]) @
              fst (retry_loop runs q max_retries [Suc m..<?n] now')" by auto
    have "\<exists>rest. fst (retry_loop runs q max_retries [Suc m..<?n] now') = Invoke (Suc m) q # rest"
      using more by (rule retry_loop_head)
    with run show ?thesis by auto
  qed
  from base retried show ?thesis by blast
qed

theorem retry_catches_every_Exception_witness:
  "(0::nat) < nat 3
   \<and> cancelled_first 0 ''q'' = Raises 1 (Exn CancelledError [])
   \<and> \<not> isinstance_Exception (Exn CancelledError [])
   \<and> (\<exists>t. search_with_retry cancelled_first ''q'' 3 =
          ([Invoke 0 ''q''], Raises t (Exn CancelledError [])))
   \<and> times_out_once 0 ''q'' = Raises 30 (Exn TimeoutError [])
   \<and> isinstance_TimeoutError (Exn TimeoutError []) \<and> Suc 0 < nat 3
   \<and> (\<exists>rest. fst (search_with_retry times_out_once ''q'' 3) =
          Invoke 0 ''q'' # Sleep 1 # Invoke (Suc 0) ''q'' # rest)"
proof -
  have m: "(0::nat) < nat 3" and more: "Suc 0 < nat 3" by simp_all
  have none: "\<forall>a<0. \<exists>t e. cancelled_first a ''q'' = Raises t e \<and> isinstance_Exception e"
    "\<forall>a<0. \<exists>t e. times_out_once a ''q'' = Raises t e \<and> isinstance_Exception e" by simp_all
  have c: "cancelled_first 0 ''q'' = Raises 1 (Exn CancelledError [])"
    by (simp add: cancelled_first_def)
  have t: "times_out_once 0 ''q'' = Raises 30 (Exn TimeoutError [])"
    by (simp add: times_out_once_def)
  have base: "\<not> isinstance_Exception (Exn CancelledError [])"
    and tmo: "isinstance_TimeoutError (Exn TimeoutError [])" by simp_all
  from retry_catches_every_Exception [where m = 0 and max_retries = 3
      and runs = cancelled_first and q = "''q''" and tm = 1 and e = "Exn CancelledError []",
      OF m none(1) c] base
  have one: "\<exists>t. search_with_retry cancelled_first ''q'' 3 =
          ([Invoke 0 ''q''], Raises t (Exn CancelledError []))" by simp
  from retry_catches_every_Exception [where m = 0 and max_retries = 3
      and runs = times_out_once and q = "''q''" and tm = 30 and e = "Exn TimeoutError []",
      OF m none(2) t] tmo more
  have two: "\<exists>rest. fst (search_with_retry times_out_once ''q'' 3) =
          Invoke 0 ''q'' # Sleep 1 # Invoke (Suc 0) ''q'' # rest" by simp
  from m c base one t tmo more two show ?thesis by blast
qed

text \<open>
  C6 as stated fails: a timeout in the first attempt is followed by a sleep and a second
  invocation, and the dictionary returned counts two attempts.
\<close>

theorem timeout_is_retried:
  "search_with_retry times_out_once ''q'' 3 =
     ([Invoke 0 ''q'', Sleep 1, Invoke 1 ''q''],
      Returns 32 (Some [''query'' \<mapsto> PyStr ''q'', ''result'' \<mapsto> PyStr ''ok'',
                        ''attempts'' \<mapsto> PyInt 2]))"
  by (simp add: search_with_retry_def py_range1_def times_out_once_def upt_rec)

text \<open>
  C10.  With \<^verbatim>\<open>max_retries\<close> zero or negative the call returns \<^verbatim>\<open>None\<close> at once: the log
  is empty, so the runner is never invoked, and nothing is raised.
\<close>

theorem retry_without_attempts:
  "max_retries \<le> 0 \<Longrightarrow> search_with_retry runs q max_retries = ([], Returns 0 None)"
  by (rule retry_empty_range)

theorem retry_without_attempts_witness:
  "(0::int) \<le> 0 \<and> search_with_retry fails_second ''q'' 0 = ([], Returns 0 None)
   \<and> (-2::int) \<le> 0 \<and> search_with_retry fails_second ''q'' (-2) = ([], Returns 0 None)"
  using retry_without_attempts [of 0 fails_second "''q''"]
    retry_without_attempts [of "-2" fails_second "''q''"] by simp

section \<open>Sizes below one\<close>

lemma py_range_neg:
  assumes "step < 0"
  shows "py_range 0 (int n) step = Inr []"
proof -
  let ?s = "- step"
  have pos: "0 < ?s" using assms by simp
  have "0 - int n - step - 1 \<le> ?s - 1" by linarith
  then have "(0 - int n - step - 1) div ?s \<le> (?s - 1) div ?s"
    using pos by (rule zdiv_mono1)
  also have "(?s - 1) div ?s = 0"
    using pos by (intro div_pos_pos_trivial) linarith+
  finally show ?thesis using assms by (simp add: py_range_def)
qed

text \<open>
  C9 (as the code has it).  Neither function checks its argument.  A batch size of zero
  makes \<^verbatim>\<open>range\<close> raise \<^verbatim>\<open>ValueError\<close>, which leaves the call.  A negative batch size
  gives an empty range, and the call returns the empty list.  With \<^verbatim>\<open>max_retries\<close> below 1
  the retry call returns \<^verbatim>\<open>None\<close> without invoking the runner.
\<close>

theorem nonpositive_sizes:
  "batch_parallel_searches runs queries 0 =
     Raises 0 (Exn ValueError ''range() arg 3 must not be zero'')
   \<and> (batch_size < 0 \<longrightarrow> batch_parallel_searches runs queries batch_size = Returns 0 [])
   \<and> (max_retries < 1 \<longrightarrow> search_with_retry runs q max_retries = ([], Returns 0 None))"
  by (simp add: batch_parallel_searches_def py_range_neg retry_empty_range) (simp add: py_range_def)

theorem nonpositive_sizes_witness:
  "batch_parallel_searches fails_second [''a'', ''b''] 0 =
     Raises 0 (Exn ValueError ''range() arg 3 must not be zero'')
   \<and> (-1::int) < 0 \<and> batch_parallel_searches fails_second [''a'', ''b''] (-1) = Returns 0 []
   \<and> (0::int) < 1 \<and> search_with_retry fails_second ''q'' 0 = ([], Returns 0 None)"
  using nonpositive_sizes [of fails_second "[''a'', ''b'']" "-1" 0 "''q''"] by simp

text \<open>
  C9 as stated fails: a batch size of -1 and a retry budget of 0 both return a value.
\<close>

theorem nonpositive_sizes_return:
  "batch_parallel_searches fails_second [''a'', ''b''] (-1) = Returns 0 []
   \<and> search_with_retry fails_second ''q'' 0 = ([], Returns 0 None)"
  by (simp add: batch_parallel_searches_def py_range_def search_with_retry_def py_range1_def)

section \<open>The deadline\<close>





section \<open>The race\<close>

lemma completion_time_search_task [simp]:
  "completion_time (search_task Runner_run q agent_id) = completion_time (Runner_run q)"
  by (cases "Runner_run q") (simp_all add: search_task_def)


















end
